theory Spec2Isabelle
  imports Main "HOL-Library.Word"
begin

section \<open>The prefix trie of gotrie: data model\<close>

text \<open>
  The Go package keeps its nodes on the garbage-collected heap and links them with
  pointers. Delete mutates parents through a stack of node pointers, and Scan keeps node
  pointers between calls, so the model has an explicit store: an address is a natural
  number, \<open>heap\<close> maps every address to the node stored there, and \<open>nxt\<close> is the address
  that the next \<open>new(pnode)\<close> returns. Go never frees a node that is still referenced, so
  nothing is ever removed from the store.

  A key is a Go string read as \<open>[]byte\<close>: a list of 8-bit words. A payload is an
  \<open>interface{}\<close>: \<open>None\<close> is \<open>nil\<close>.
\<close>

type_synonym addr = nat
type_synonym byte = "8 word"
type_synonym key = "byte list"

text \<open>\<open>type pnode struct { children [256]*pnode; value interface{}; valid bool }\<close>\<close>

record 'v pnode =
  children :: "byte \<Rightarrow> addr option"
  pvalue :: "'v option"
  valid :: bool

text \<open>
  \<open>type pbookmark struct { n *pnode; prefix []byte; k uint16 }\<close>. The field \<open>k\<close> is a
  16-bit counter: it is a natural number here and every increment is written with its
  wrap-around \<open>mod 65536\<close>.
\<close>

record pbookmark =
  bm_n :: addr
  bm_prefix :: key
  bm_k :: nat

text \<open>
  \<open>type PrefixTrie struct { root *pnode; bookmarks []*pbookmark }\<close>, together with the
  store it lives in. The slice \<open>bookmarks\<close> is used as a stack; the list holds it with
  the top of the stack first, so its head is \<open>t.bookmarks[len(t.bookmarks)-1]\<close> and its
  last element is \<open>t.bookmarks[0]\<close>.
\<close>

record 'v PrefixTrie =
  heap :: "addr \<Rightarrow> 'v pnode"
  nxt :: addr
  root :: addr
  bookmarks :: "pbookmark list"

datatype panic = IndexOutOfRange

text \<open>The zero value that \<open>new(pnode)\<close> allocates.\<close>

definition new_pnode :: "'v pnode" where
  "new_pnode = \<lparr>children = (\<lambda>_. None), pvalue = None, valid = False\<rparr>"

text \<open>\<open>NewPrefixTrie\<close>: the root is the first node allocated.\<close>

definition NewPrefixTrie :: "'v PrefixTrie" where
  "NewPrefixTrie = \<lparr>heap = (\<lambda>_. new_pnode), nxt = 1, root = 0, bookmarks = []\<rparr>"

section \<open>Find\<close>

text \<open>
  The loop of Find: it follows one child per byte. \<open>None\<close> is the early return at a
  missing child, \<open>Some n\<close> the node the loop ends at.
\<close>

fun find_walk :: "(addr \<Rightarrow> 'v pnode) \<Rightarrow> addr \<Rightarrow> key \<Rightarrow> addr option" where
  "find_walk h n [] = Some n"
| "find_walk h n (k # ks) =
     (case children (h n) k of
        None \<Rightarrow> None
      | Some c \<Rightarrow> find_walk h c ks)"

definition Find :: "'v PrefixTrie \<Rightarrow> key \<Rightarrow> 'v option \<times> bool" where
  "Find t ky =
     (case find_walk (heap t) (root t) ky of
        None \<Rightarrow> (None, False)
      | Some n \<Rightarrow> (pvalue (heap t n), valid (heap t n)))"

section \<open>Insert\<close>

text \<open>
  The first loop of Insert follows existing children. It returns the node it stopped at
  and \<open>indexLastByte\<close>: the index of the first byte without a child, or \<open>-1\<close>.
\<close>

fun insert_walk :: "(addr \<Rightarrow> 'v pnode) \<Rightarrow> addr \<Rightarrow> key \<Rightarrow> nat \<Rightarrow> addr \<times> int" where
  "insert_walk h n [] i = (n, - 1)"
| "insert_walk h n (k # ks) i =
     (case children (h n) k of
        None \<Rightarrow> (n, int i)
      | Some c \<Rightarrow> insert_walk h c ks (Suc i))"

text \<open>
  The second loop appends a fresh node for every remaining byte:
  \<open>c := new(pnode); n.children[k] = c; n = c\<close>.
\<close>

fun insert_append ::
  "(addr \<Rightarrow> 'v pnode) \<Rightarrow> addr \<Rightarrow> addr \<Rightarrow> key \<Rightarrow> (addr \<Rightarrow> 'v pnode) \<times> addr \<times> addr" where
  "insert_append h nx n [] = (h, nx, n)"
| "insert_append h nx n (k # ks) =
     (let c = nx;
          h1 = h(c := new_pnode);
          h2 = h1(n := (h1 n)\<lparr>children := (children (h1 n))(k \<mapsto> c)\<rparr>)
      in insert_append h2 (Suc nx) c ks)"

definition Insert :: "'v PrefixTrie \<Rightarrow> key \<Rightarrow> 'v option \<Rightarrow> 'v PrefixTrie" where
  "Insert t keyb v =
     (let (n, indexLastByte) = insert_walk (heap t) (root t) keyb 0;
          (h1, nx1, n1) =
            (if indexLastByte \<noteq> - 1
             then insert_append (heap t) (nxt t) n (drop (nat indexLastByte) keyb)
             else (heap t, nxt t, n));
          h2 = h1(n1 := (h1 n1)\<lparr>pvalue := v\<rparr>);
          h3 = h2(n1 := (h2 n1)\<lparr>valid := True\<rparr>)
      in t\<lparr>heap := h3, nxt := nx1\<rparr>)"

section \<open>Delete\<close>

text \<open>
  The walk of Delete pushes one bookmark per byte onto a local stack that starts with the
  root's bookmark. \<open>None\<close> is the early \<open>return false\<close> at a missing child.
\<close>

fun delete_walk ::
  "(addr \<Rightarrow> 'v pnode) \<Rightarrow> addr \<Rightarrow> key \<Rightarrow> pbookmark list \<Rightarrow> (addr \<times> pbookmark list) option" where
  "delete_walk h n [] bms = Some (n, bms)"
| "delete_walk h n (k # ks) bms =
     (case children (h n) k of
        None \<Rightarrow> None
      | Some c \<Rightarrow> delete_walk h c ks (\<lparr>bm_n = c, bm_prefix = [k], bm_k = 0\<rparr> # bms))"

text \<open>\<open>for i := 0; i < 256; i++ { if bm.n.children[i] != nil { return true } }\<close>\<close>

definition has_children :: "'v pnode \<Rightarrow> bool" where
  "has_children nd = list_ex (\<lambda>i. children nd (of_nat i) \<noteq> None) [0..<256]"

text \<open>
  The backward loop of Delete. It pops a bookmark, unlinks the child named by \<open>prev\<close>
  unless \<open>prev\<close> is 256, and stops at the root, at a valid node or at a node with
  children. Popping an empty stack and reading \<open>bm.prefix[0]\<close> of an empty prefix are
  the two index expressions of the loop; out of range they panic.
\<close>

fun delete_cleanup ::
  "(addr \<Rightarrow> 'v pnode) \<Rightarrow> pbookmark list \<Rightarrow> nat \<Rightarrow> panic + (addr \<Rightarrow> 'v pnode)" where
  "delete_cleanup h [] prev = Inl IndexOutOfRange"
| "delete_cleanup h (bm # bms) prev =
     (let h1 = (if prev \<noteq> 256
                then h(bm_n bm := (h (bm_n bm))\<lparr>children := (children (h (bm_n bm)))(of_nat prev := None)\<rparr>)
                else h)
      in if bms = [] then Inr h1
         else if valid (h1 (bm_n bm)) then Inr h1
         else if has_children (h1 (bm_n bm)) then Inr h1
         else (case bm_prefix bm of
                 [] \<Rightarrow> Inl IndexOutOfRange
               | p # _ \<Rightarrow> delete_cleanup h1 bms (unat p)))"

definition Delete :: "'v PrefixTrie \<Rightarrow> key \<Rightarrow> panic + (bool \<times> 'v PrefixTrie)" where
  "Delete t ky =
     (case delete_walk (heap t) (root t) ky [\<lparr>bm_n = root t, bm_prefix = [], bm_k = 0\<rparr>] of
        None \<Rightarrow> Inr (False, t)
      | Some (n, bms) \<Rightarrow>
          (let wasValid = valid (heap t n);
               h1 = (heap t)(n := (heap t n)\<lparr>valid := False\<rparr>)
           in if \<not> wasValid then Inr (False, t\<lparr>heap := h1\<rparr>)
              else (case delete_cleanup h1 bms 256 of
                      Inl e \<Rightarrow> Inl e
                    | Inr h2 \<Rightarrow> Inr (True, t\<lparr>heap := h2\<rparr>))))"

section \<open>Scan and the cursor accessors\<close>

text \<open>
  The first inner loop of Scan, \<open>for ; bm.k < 256; bm.k++\<close>: it returns the value of
  \<open>bm.k\<close> when the loop is left and the child found there, if any.
\<close>

function scan_children :: "'v pnode \<Rightarrow> nat \<Rightarrow> nat \<times> addr option" where
  "scan_children nd k =
     (if k < 256
      then (case children nd (of_nat k) of
              Some c \<Rightarrow> (k, Some c)
            | None \<Rightarrow> scan_children nd ((k + 1) mod 65536))
      else (k, None))"
  by pat_completeness auto
termination
  by (relation "measure (\<lambda>(nd, k). 256 - k)") auto

text \<open>
  The second inner loop, \<open>for bm.k == 256\<close>, pops bookmarks. \<open>Inl bm\<close> is its
  \<open>return false\<close>: \<open>itop\<close> has reached \<open>-1\<close> and the slice \<open>t.bookmarks\<close>, which
  is only cut when a bookmark below is taken, still holds the bookmark \<open>bm\<close>.
\<close>

fun pop_bookmarks :: "pbookmark \<Rightarrow> pbookmark list \<Rightarrow> pbookmark + pbookmark \<times> pbookmark list" where
  "pop_bookmarks bm [] = (if bm_k bm = 256 then Inl bm else Inr (bm, []))"
| "pop_bookmarks bm (b # bs) = (if bm_k bm = 256 then pop_bookmarks b bs else Inr (bm, b # bs))"

text \<open>
  The loop labelled \<open>outer\<close>. The local \<open>bm\<close> is always \<open>t.bookmarks[itop]\<close> and
  \<open>len(t.bookmarks)\<close> is \<open>itop + 1\<close>, so the state of the loop is the top bookmark and
  the bookmarks below it. The loop has no bound of its own: not returning is \<open>None\<close>.
\<close>

partial_function (option) scan_outer ::
  "(addr \<Rightarrow> 'v pnode) \<Rightarrow> pbookmark \<Rightarrow> pbookmark list \<Rightarrow> (bool \<times> pbookmark list) option" where
  "scan_outer h bm bms =
     (case scan_children (h (bm_n bm)) (bm_k bm) of
        (k1, Some child) \<Rightarrow>
          (let bm0 = bm\<lparr>bm_k := k1\<rparr>;
               bm1 = \<lparr>bm_n = child, bm_prefix = bm_prefix bm0 @ [of_nat (bm_k bm0)], bm_k = 0\<rparr>
           in if valid (h child) then Some (True, bm1 # bm0 # bms)
              else scan_outer h bm1 (bm0 # bms))
      | (k1, None) \<Rightarrow>
          (case pop_bookmarks (bm\<lparr>bm_k := k1\<rparr>) bms of
             Inl b \<Rightarrow> Some (False, [b])
           | Inr (b, bs) \<Rightarrow> scan_outer h (b\<lparr>bm_k := (bm_k b + 1) mod 65536\<rparr>) bs))"

declare scan_outer.simps [code]

definition Scan :: "'v PrefixTrie \<Rightarrow> (bool \<times> 'v PrefixTrie) option" where
  "Scan t =
     (let bms = (if length (bookmarks t) = 0
                 then [\<lparr>bm_n = root t, bm_prefix = [], bm_k = 0\<rparr>]
                 else bookmarks t)
      in map_option (\<lambda>(r, bms'). (r, t\<lparr>bookmarks := bms'\<rparr>)) (scan_outer (heap t) (hd bms) (tl bms)))"

definition Pair :: "'v PrefixTrie \<Rightarrow> panic + key \<times> 'v option" where
  "Pair t =
     (case bookmarks t of
        [] \<Rightarrow> Inl IndexOutOfRange
      | bm # _ \<Rightarrow> Inr (bm_prefix bm, pvalue (heap t (bm_n bm))))"

definition Text :: "'v PrefixTrie \<Rightarrow> panic + key" where
  "Text t =
     (case bookmarks t of
        [] \<Rightarrow> Inl IndexOutOfRange
      | bm # _ \<Rightarrow> Inr (bm_prefix bm))"

text \<open>
  The enumeration loop of the package's documentation,
  \<open>for t.Scan() { ... t.Pair() ... }\<close>: the pairs read until Scan returns false, and the
  trie left behind.
\<close>

partial_function (option) scan_loop ::
  "'v PrefixTrie \<Rightarrow> (panic + (key \<times> 'v option) list \<times> 'v PrefixTrie) option" where
  "scan_loop t =
     (case Scan t of
        None \<Rightarrow> None
      | Some (r, t1) \<Rightarrow>
          if \<not> r then Some (Inr ([], t1))
          else (case Pair t1 of
                  Inl e \<Rightarrow> Some (Inl e)
                | Inr p \<Rightarrow>
                    Option.bind (scan_loop t1)
                      (\<lambda>res. case res of
                                Inl e \<Rightarrow> Some (Inl e)
                              | Inr (ps, t2) \<Rightarrow> Some (Inr (p # ps, t2)))))"

declare scan_loop.simps [code]


section \<open>Reachable states and their invariants\<close>

text \<open>
  The states a program can produce: a new trie, followed by any calls of Insert, Delete
  and Scan that return. Find, Pair and Text change nothing.
\<close>

inductive reachable :: "'v PrefixTrie \<Rightarrow> bool" where
  reachable_new: "reachable NewPrefixTrie"
| reachable_Insert: "reachable t \<Longrightarrow> reachable (Insert t ky v)"
| reachable_Delete: "reachable t \<Longrightarrow> Delete t ky = Inr (b, t') \<Longrightarrow> reachable t'"
| reachable_Scan: "reachable t \<Longrightarrow> Scan t = Some (b, t') \<Longrightarrow> reachable t'"

text \<open>
  The shape of the store: a child is allocated after its parent and before \<open>nxt\<close>, and no
  node is the child of two slots.
\<close>

definition heap_inv :: "(addr \<Rightarrow> 'v pnode) \<Rightarrow> addr \<Rightarrow> bool" where
  "heap_inv h nx \<longleftrightarrow>
     (\<forall>a b c. children (h a) b = Some c \<longrightarrow> a < c \<and> c < nx) \<and>
     (\<forall>a b a' b' c. children (h a) b = Some c \<and> children (h a') b' = Some c \<longrightarrow> a = a' \<and> b = b')"

text \<open>A node that is linked from a parent is terminal or has a child of its own.\<close>

definition pruned :: "(addr \<Rightarrow> 'v pnode) \<Rightarrow> bool" where
  "pruned h \<longleftrightarrow>
     (\<forall>p b a. children (h p) b = Some a \<longrightarrow> valid (h a) \<or> (\<exists>b'. children (h a) b' \<noteq> None))"

definition trie_inv :: "'v PrefixTrie \<Rightarrow> bool" where
  "trie_inv t \<longleftrightarrow>
     heap_inv (heap t) (nxt t) \<and> root t = 0 \<and> 0 < nxt t \<and> pruned (heap t) \<and>
     (\<forall>bm \<in> set (bookmarks t). bm_k bm \<le> 256)"

text \<open>One round of the second loop of Insert.\<close>

definition alloc_child :: "(addr \<Rightarrow> 'v pnode) \<Rightarrow> addr \<Rightarrow> addr \<Rightarrow> byte \<Rightarrow> addr \<Rightarrow> 'v pnode" where
  "alloc_child h nx n k =
     (h(nx := new_pnode))(n := ((h(nx := new_pnode)) n)\<lparr>children := (children ((h(nx := new_pnode)) n))(k \<mapsto> nx)\<rparr>)"

text \<open>What the second loop of Insert establishes.\<close>

definition append_post ::
  "(addr \<Rightarrow> 'v pnode) \<Rightarrow> addr \<Rightarrow> addr \<Rightarrow> key \<Rightarrow> (addr \<Rightarrow> 'v pnode) \<Rightarrow> addr \<Rightarrow> addr \<Rightarrow> bool" where
  "append_post h nx n ks h' nx' n' \<longleftrightarrow>
     heap_inv h' nx' \<and> nx \<le> nx' \<and> n' < nx' \<and> (ks \<noteq> [] \<longrightarrow> nx \<le> n') \<and>
     (ks = [] \<longrightarrow> n' = n \<and> h' = h) \<and>
     find_walk h' n ks = Some n' \<and>
     (\<forall>a. a < nx \<longrightarrow> pvalue (h' a) = pvalue (h a) \<and> valid (h' a) = valid (h a)) \<and>
     (\<forall>a b c. children (h a) b = Some c \<longrightarrow> children (h' a) b = Some c) \<and>
     (\<forall>a b c. children (h' a) b = Some c \<longrightarrow> children (h a) b = Some c \<or> (nx \<le> c \<and> c < nx')) \<and>
     (\<forall>a. nx \<le> a \<and> a < nx' \<and> a \<noteq> n' \<longrightarrow> (\<exists>b. children (h' a) b \<noteq> None)) \<and>
     (\<forall>a. nx \<le> a \<and> a < nx' \<longrightarrow> pvalue (h' a) = None \<and> \<not> valid (h' a))"

text \<open>
  The stack that the walk of Delete builds: every bookmark above the lowest one holds
  the byte under which its node hangs from the node of the bookmark below.
\<close>

fun pstack_ok :: "(addr \<Rightarrow> 'v pnode) \<Rightarrow> pbookmark list \<Rightarrow> bool" where
  "pstack_ok h [] = False"
| "pstack_ok h [f] = True"
| "pstack_ok h (f # g # S) =
     ((\<exists>b. bm_prefix f = [b] \<and> children (h (bm_n g)) b = Some (bm_n f)) \<and> pstack_ok h (g # S))"

text \<open>The unlink step of the backward loop of Delete.\<close>

definition unlink_child :: "(addr \<Rightarrow> 'v pnode) \<Rightarrow> addr \<Rightarrow> nat \<Rightarrow> addr \<Rightarrow> 'v pnode" where
  "unlink_child h a prev =
     (if prev \<noteq> 256
      then h(a := (h a)\<lparr>children := (children (h a))(of_nat prev := None)\<rparr>)
      else h)"

section \<open>Properties of Find and Delete\<close>

lemma has_children_iff: "has_children nd \<longleftrightarrow> (\<exists>b. children nd b \<noteq> None)"
proof
  assume "has_children nd"
  then show "\<exists>b. children nd b \<noteq> None"
    by (auto simp: has_children_def list_ex_iff)
next
  assume "\<exists>b. children nd b \<noteq> None"
  then obtain b where b: "children nd b \<noteq> None" by blast
  have "unat b < 256" using unsigned_less [of b] by simp
  moreover have "children nd (of_nat (unat b)) \<noteq> None" using b by simp
  ultimately show "has_children nd"
    unfolding has_children_def list_ex_iff by (metis atLeastLessThan_iff set_upt zero_le)
qed

lemma delete_walk_None: "delete_walk h n ks bms = None \<longleftrightarrow> find_walk h n ks = None"
  by (induction ks arbitrary: n bms) (auto split: option.splits)

lemma delete_walk_Some:
  "delete_walk h n ks bms = Some (m, bs) \<Longrightarrow>
     find_walk h n ks = Some m \<and> (\<exists>fs. bs = fs @ bms \<and> (\<forall>f\<in>set fs. bm_prefix f \<noteq> []))"
proof (induction ks arbitrary: n bms)
  case Nil
  then show ?case by simp
next
  case (Cons k ks)
  then obtain c where c: "children (h n) k = Some c"
    and dw: "delete_walk h c ks (\<lparr>bm_n = c, bm_prefix = [k], bm_k = 0\<rparr> # bms) = Some (m, bs)"
    by (auto split: option.splits)
  from Cons.IH [OF dw] obtain fs where
    "find_walk h c ks = Some m" "bs = fs @ \<lparr>bm_n = c, bm_prefix = [k], bm_k = 0\<rparr> # bms"
    "\<forall>f\<in>set fs. bm_prefix f \<noteq> []" by blast
  then show ?case using c
    by (auto intro!: exI [of _ "fs @ [\<lparr>bm_n = c, bm_prefix = [k], bm_k = 0\<rparr>]"])
qed

lemma delete_cleanup_no_panic:
  "bms \<noteq> [] \<Longrightarrow> \<forall>f\<in>set (butlast bms). bm_prefix f \<noteq> [] \<Longrightarrow> \<exists>h'. delete_cleanup h bms prev = Inr h'"
proof (induction bms arbitrary: h prev)
  case Nil
  then show ?case by simp
next
  case (Cons bm bms)
  show ?case
  proof (cases "bms = []")
    case True
    then show ?thesis by (simp add: Let_def)
  next
    case False
    with Cons.prems obtain p ps where p: "bm_prefix bm = p # ps"
      by (cases "bm_prefix bm") auto
    from False Cons.prems have "\<forall>f\<in>set (butlast bms). bm_prefix f \<noteq> []" by simp
    from Cons.IH [OF False this] show ?thesis using False p
      by (simp add: Let_def)
  qed
qed

lemma delete_cleanup_frame:
  "delete_cleanup h bms prev = Inr h' \<Longrightarrow>
     (\<forall>a. valid (h' a) = valid (h a) \<and> pvalue (h' a) = pvalue (h a)) \<and>
     (\<forall>a b. children (h' a) b = children (h a) b \<or> children (h' a) b = None)"
proof (induction h bms prev arbitrary: h' rule: delete_cleanup.induct)
  case (1 h prev)
  then show ?case by simp
next
  case (2 h bm bms prev)
  define h1 where "h1 = (if prev \<noteq> 256
                then h(bm_n bm := (h (bm_n bm))\<lparr>children := (children (h (bm_n bm)))(of_nat prev := None)\<rparr>)
                else h)"
  have h1: "(\<forall>a. valid (h1 a) = valid (h a) \<and> pvalue (h1 a) = pvalue (h a)) \<and>
     (\<forall>a b. children (h1 a) b = children (h a) b \<or> children (h1 a) b = None)"
    by (simp add: h1_def)
  show ?case
  proof (cases "bms = [] \<or> valid (h1 (bm_n bm)) \<or> has_children (h1 (bm_n bm))")
    case True
    with "2.prems" have "h' = h1" by (auto simp: h1_def Let_def split: if_splits)
    then show ?thesis using h1 by simp
  next
    case False
    with "2.prems" obtain p ps where p: "bm_prefix bm = p # ps"
      and dc: "delete_cleanup h1 bms (unat p) = Inr h'"
      by (auto simp: h1_def Let_def split: if_splits list.splits)
    have "(\<forall>a. valid (h' a) = valid (h1 a) \<and> pvalue (h' a) = pvalue (h1 a)) \<and>
     (\<forall>a b. children (h' a) b = children (h1 a) b \<or> children (h' a) b = None)"
      using "2.IH" [OF h1_def _ _ _ p dc] False by simp
    then show ?thesis using h1 by metis
  qed
qed

lemma find_walk_subedges:
  "\<forall>a b. children (h' a) b = children (h a) b \<or> children (h' a) b = None \<Longrightarrow>
   find_walk h' n ks = Some m \<Longrightarrow> find_walk h n ks = Some m"
proof (induction ks arbitrary: n)
  case Nil
  then show ?case by simp
next
  case (Cons k ks)
  from Cons.prems(2) obtain c where c: "children (h' n) k = Some c" and w: "find_walk h' c ks = Some m"
    by (auto split: option.splits)
  from Cons.prems(1) c have "children (h n) k = Some c" by (metis option.distinct(1))
  with Cons.IH [OF Cons.prems(1) w] show ?case by simp
qed

lemma find_walk_cong:
  "\<forall>a. children (h' a) = children (h a) \<Longrightarrow> find_walk h' n ks = find_walk h n ks"
  by (induction ks arbitrary: n) (auto split: option.splits)

lemma Delete_no_panic: "\<exists>b t'. Delete t ky = Inr (b, t')"
proof (cases "delete_walk (heap t) (root t) ky [\<lparr>bm_n = root t, bm_prefix = [], bm_k = 0\<rparr>]")
  case None
  then have "Delete t ky = Inr (False, t)" by (simp add: Delete_def)
  then show ?thesis by blast
next
  case (Some r)
  obtain n bms where r: "r = (n, bms)" by (cases r)
  from delete_walk_Some [OF Some [unfolded r]] obtain fs where
    fs: "bms = fs @ [\<lparr>bm_n = root t, bm_prefix = [], bm_k = 0\<rparr>]" "\<forall>f\<in>set fs. bm_prefix f \<noteq> []"
    by blast
  then have "bms \<noteq> []" "\<forall>f\<in>set (butlast bms). bm_prefix f \<noteq> []" by (auto simp: butlast_append)
  from delete_cleanup_no_panic [OF this]
  obtain h' where "delete_cleanup ((heap t)(n := (heap t n)\<lparr>valid := False\<rparr>)) bms 256 = Inr h'"
    by blast
  then show ?thesis using Some r by (auto simp: Delete_def Let_def)
qed

lemma Delete_absent: "\<not> snd (Find t ky) \<Longrightarrow> Delete t ky = Inr (False, t)"
proof (cases "delete_walk (heap t) (root t) ky [\<lparr>bm_n = root t, bm_prefix = [], bm_k = 0\<rparr>]")
  case None
  then show ?thesis by (simp add: Delete_def)
next
  case (Some r)
  assume nf: "\<not> snd (Find t ky)"
  obtain n bms where r: "r = (n, bms)" by (cases r)
  from delete_walk_Some [OF Some [unfolded r]] have fw: "find_walk (heap t) (root t) ky = Some n"
    by blast
  with nf have nv: "\<not> valid (heap t n)" by (simp add: Find_def)
  then have "(heap t n)\<lparr>valid := False\<rparr> = heap t n" by (cases "heap t n") simp
  then have "(heap t)(n := (heap t n)\<lparr>valid := False\<rparr>) = heap t" by simp
  then show ?thesis using Some r nv by (simp add: Delete_def Let_def)
qed

lemma Delete_found_iff:
  assumes "Delete t ky = Inr (b, t')"
  shows "b = snd (Find t ky) \<and> (b \<longrightarrow> \<not> snd (Find t' ky))"
proof (cases "delete_walk (heap t) (root t) ky [\<lparr>bm_n = root t, bm_prefix = [], bm_k = 0\<rparr>]")
  case None
  then have "find_walk (heap t) (root t) ky = None" by (simp add: delete_walk_None)
  with None assms show ?thesis by (auto simp: Delete_def Find_def)
next
  case (Some r)
  obtain n bms where r: "r = (n, bms)" by (cases r)
  from delete_walk_Some [OF Some [unfolded r]] have fw: "find_walk (heap t) (root t) ky = Some n"
    by blast
  define h1 where "h1 = (heap t)(n := (heap t n)\<lparr>valid := False\<rparr>)"
  show ?thesis
  proof (cases "valid (heap t n)")
    case False
    with Some r assms fw show ?thesis by (auto simp: Delete_def Find_def Let_def)
  next
    case True
    with Some r assms obtain h2 where dc: "delete_cleanup h1 bms 256 = Inr h2"
      and b: "b = True" and t': "t' = t\<lparr>heap := h2\<rparr>"
      by (auto simp: Delete_def Let_def h1_def split: sum.splits)
    note fr = delete_cleanup_frame [OF dc]
    have "\<not> snd (Find t' ky)"
    proof (cases "find_walk h2 (root t) ky")
      case None
      then show ?thesis by (simp add: Find_def t')
    next
      case (Some m)
      from find_walk_subedges [OF _ Some] fr have "find_walk h1 (root t) ky = Some m" by blast
      moreover have "find_walk h1 (root t) ky = find_walk (heap t) (root t) ky"
        by (rule find_walk_cong) (simp add: h1_def)
      ultimately have "m = n" using fw by simp
      moreover have "\<not> valid (h1 n)" by (simp add: h1_def)
      ultimately show ?thesis using Some fr by (simp add: Find_def t')
    qed
    then show ?thesis using b True fw by (simp add: Find_def)
  qed
qed


lemmas eval_defs =
  Find_def Insert_def Delete_def NewPrefixTrie_def new_pnode_def Let_def has_children_iff

lemma Delete_keeps_pvalue:
  assumes "Delete t ky = Inr (b, t')"
  shows "pvalue (heap t' a) = pvalue (heap t a)"
proof (cases "delete_walk (heap t) (root t) ky [\<lparr>bm_n = root t, bm_prefix = [], bm_k = 0\<rparr>]")
  case None
  with assms show ?thesis by (simp add: Delete_def)
next
  case (Some r)
  obtain n bms where r: "r = (n, bms)" by (cases r)
  define h1 where "h1 = (heap t)(n := (heap t n)\<lparr>valid := False\<rparr>)"
  have h1: "pvalue (h1 a) = pvalue (heap t a)" by (simp add: h1_def)
  show ?thesis
  proof (cases "valid (heap t n)")
    case False
    with Some r assms have "heap t' = h1" by (auto simp: Delete_def Let_def h1_def)
    with h1 show ?thesis by simp
  next
    case True
    with Some r assms obtain h2 where dc: "delete_cleanup h1 bms 256 = Inr h2"
      and t': "t' = t\<lparr>heap := h2\<rparr>"
      by (auto simp: Delete_def Let_def h1_def split: sum.splits)
    from delete_cleanup_frame [OF dc] h1 show ?thesis by (simp add: t')
  qed
qed

section \<open>Properties of Insert\<close>

lemma insert_append_Cons:
  "insert_append h nx n (k # ks) = insert_append (alloc_child h nx n k) (Suc nx) nx ks"
  by (simp add: alloc_child_def Let_def)

lemma alloc_child_apply:
  "n \<noteq> nx \<Longrightarrow> alloc_child h nx n k a =
     (if a = n then (h n)\<lparr>children := (children (h n))(k \<mapsto> nx)\<rparr>
      else if a = nx then new_pnode else h a)"
  by (simp add: alloc_child_def)

lemma heap_inv_no_children: "heap_inv h nx \<Longrightarrow> nx \<le> a \<Longrightarrow> children (h a) b = None"
  unfolding heap_inv_def by (metis not_less option.exhaust order.strict_trans)

lemma heap_inv_alloc_child:
  assumes "heap_inv h nx" "n < nx"
  shows "heap_inv (alloc_child h nx n k) (Suc nx)"
proof -
  have n: "n \<noteq> nx" using assms by simp
  have I1: "\<And>a b c. children (h a) b = Some c \<Longrightarrow> a < c \<and> c < nx"
    and I2: "\<And>a b a' b' c. children (h a) b = Some c \<Longrightarrow> children (h a') b' = Some c \<Longrightarrow> a = a' \<and> b = b'"
    using assms(1) unfolding heap_inv_def by blast+
  have E: "\<And>a b c. children (alloc_child h nx n k a) b = Some c \<Longrightarrow>
       (a = n \<and> b = k \<and> c = nx) \<or> (children (h a) b = Some c \<and> c < nx)"
    using I1 by (auto simp: alloc_child_apply [OF n] new_pnode_def split: if_splits)
  show ?thesis
    unfolding heap_inv_def
  proof (intro conjI allI impI)
    fix a b c assume "children (alloc_child h nx n k a) b = Some c"
    from E [OF this] I1 assms(2) show "a < c" by auto
  next
    fix a b c assume "children (alloc_child h nx n k a) b = Some c"
    from E [OF this] show "c < Suc nx" by (auto simp: less_Suc_eq)
  next
    fix a b a' b' c
    assume "children (alloc_child h nx n k a) b = Some c \<and> children (alloc_child h nx n k a') b' = Some c"
    then have "((a = n \<and> b = k \<and> c = nx) \<or> (children (h a) b = Some c \<and> c < nx))"
       "((a' = n \<and> b' = k \<and> c = nx) \<or> (children (h a') b' = Some c \<and> c < nx))"
      using E by blast+
    then show "a = a'" using I2 by auto
  next
    fix a b a' b' c
    assume "children (alloc_child h nx n k a) b = Some c \<and> children (alloc_child h nx n k a') b' = Some c"
    then have "((a = n \<and> b = k \<and> c = nx) \<or> (children (h a) b = Some c \<and> c < nx))"
       "((a' = n \<and> b' = k \<and> c = nx) \<or> (children (h a') b' = Some c \<and> c < nx))"
      using E by blast+
    then show "b = b'" using I2 by auto
  qed
qed

lemma find_walk_append:
  "find_walk h n (u @ w) = (case find_walk h n u of None \<Rightarrow> None | Some m \<Rightarrow> find_walk h m w)"
  by (induction u arbitrary: n) (auto split: option.splits)

lemma find_walk_bound:
  "heap_inv h nx \<Longrightarrow> find_walk h r w = Some a \<Longrightarrow> r \<le> a \<and> (r < nx \<longrightarrow> a < nx) \<and> (w \<noteq> [] \<longrightarrow> r < a \<and> a < nx)"
proof (induction w arbitrary: r)
  case Nil
  then show ?case by simp
next
  case (Cons k ks)
  then obtain c where c: "children (h r) k = Some c" and w: "find_walk h c ks = Some a"
    by (auto split: option.splits)
  from Cons.prems(1) c have rc: "r < c" "c < nx" unfolding heap_inv_def by blast+
  from Cons.IH [OF Cons.prems(1) w] rc show ?case by auto
qed

lemma alloc_child_edge:
  assumes "heap_inv h nx" "n < nx" "children (alloc_child h nx n k a) b = Some c"
  shows "(a = n \<and> b = k \<and> c = nx) \<or> (children (h a) b = Some c \<and> c < nx)"
proof -
  have n: "n \<noteq> nx" using assms by simp
  have I1: "\<And>a b c. children (h a) b = Some c \<Longrightarrow> a < c \<and> c < nx"
    using assms(1) unfolding heap_inv_def by blast
  show ?thesis using assms(3) I1
    by (auto simp: alloc_child_apply [OF n] new_pnode_def split: if_splits)
qed

lemma alloc_child_keeps_edge:
  assumes "heap_inv h nx" "n < nx" "children (h n) k = None" "children (h a) b = Some c"
  shows "children (alloc_child h nx n k a) b = Some c"
proof -
  have n: "n \<noteq> nx" using assms by simp
  have "a < nx" using assms(1,4) unfolding heap_inv_def by (meson order.strict_trans)
  then show ?thesis using assms(3,4) by (auto simp: alloc_child_apply [OF n])
qed

lemma insert_append_post:
  "heap_inv h nx \<Longrightarrow> n < nx \<Longrightarrow> (ks \<noteq> [] \<longrightarrow> children (h n) (hd ks) = None) \<Longrightarrow>
   insert_append h nx n ks = (h', nx', n') \<Longrightarrow> append_post h nx n ks h' nx' n'"
proof (induction ks arbitrary: h nx n)
  case Nil
  then show ?case by (auto simp: append_post_def)
next
  case (Cons k ks)
  define h2 where "h2 = alloc_child h nx n k"
  have n: "n \<noteq> nx" using Cons.prems by simp
  have kn: "children (h n) k = None" using Cons.prems by simp
  have inv2: "heap_inv h2 (Suc nx)" unfolding h2_def by (rule heap_inv_alloc_child) fact+
  have new: "h2 nx = new_pnode" by (simp add: h2_def alloc_child_apply [OF n] n [symmetric])
  have hd2: "ks \<noteq> [] \<longrightarrow> children (h2 nx) (hd ks) = None" by (simp add: new new_pnode_def)
  have ia: "insert_append h2 (Suc nx) nx ks = (h', nx', n')"
    using Cons.prems(4) unfolding insert_append_Cons h2_def .
  have post: "append_post h2 (Suc nx) nx ks h' nx' n'"
    by (rule Cons.IH [OF inv2 _ hd2 ia]) simp
  have edge_nk: "children (h2 n) k = Some nx" by (simp add: h2_def alloc_child_apply [OF n])
  have old: "\<And>a. a < nx \<Longrightarrow> pvalue (h2 a) = pvalue (h a) \<and> valid (h2 a) = valid (h a)"
    by (simp add: h2_def alloc_child_apply [OF n])
  have keep: "\<And>a b c. children (h a) b = Some c \<Longrightarrow> children (h2 a) b = Some c"
    unfolding h2_def using alloc_child_keeps_edge [OF Cons.prems(1,2) kn] by blast
  have edge2: "\<And>a b c. children (h2 a) b = Some c \<Longrightarrow>
      (a = n \<and> b = k \<and> c = nx) \<or> (children (h a) b = Some c \<and> c < nx)"
    unfolding h2_def using alloc_child_edge [OF Cons.prems(1,2)] by blast
  have p1: "heap_inv h' nx'" and p2: "Suc nx \<le> nx'" and p3: "n' < nx'"
    and p4: "ks \<noteq> [] \<longrightarrow> Suc nx \<le> n'" and p5: "ks = [] \<longrightarrow> n' = nx \<and> h' = h2"
    and w: "find_walk h' nx ks = Some n'"
    and p7: "\<forall>a. a < Suc nx \<longrightarrow> pvalue (h' a) = pvalue (h2 a) \<and> valid (h' a) = valid (h2 a)"
    and p8: "\<forall>a b c. children (h2 a) b = Some c \<longrightarrow> children (h' a) b = Some c"
    and p9: "\<forall>a b c. children (h' a) b = Some c \<longrightarrow> children (h2 a) b = Some c \<or> (Suc nx \<le> c \<and> c < nx')"
    and p10: "\<forall>a. Suc nx \<le> a \<and> a < nx' \<and> a \<noteq> n' \<longrightarrow> (\<exists>b. children (h' a) b \<noteq> None)"
    and p11: "\<forall>a. Suc nx \<le> a \<and> a < nx' \<longrightarrow> pvalue (h' a) = None \<and> \<not> valid (h' a)"
    using post unfolding append_post_def by simp_all
  have 1: "heap_inv h' nx'" by (rule p1)
  have 2: "nx \<le> nx'" "n' < nx'" "nx \<le> n'" using p2 p3 p4 p5 by (cases "ks = []"; simp)+
  have e': "children (h' n) k = Some nx" using p8 edge_nk by blast
  have 3: "find_walk h' n (k # ks) = Some n'" using w e' by simp
  have 4: "\<forall>a. a < nx \<longrightarrow> pvalue (h' a) = pvalue (h a) \<and> valid (h' a) = valid (h a)"
    using p7 old by (metis less_Suc_eq)
  have E: "\<forall>a b c. children (h a) b = Some c \<longrightarrow> children (h' a) b = Some c"
    using p8 keep by blast
  have F: "\<forall>a b c. children (h' a) b = Some c \<longrightarrow> children (h a) b = Some c \<or> (nx \<le> c \<and> c < nx')"
  proof (intro allI impI)
    fix a b c assume "children (h' a) b = Some c"
    with p9 have "children (h2 a) b = Some c \<or> (Suc nx \<le> c \<and> c < nx')" by blast
    then show "children (h a) b = Some c \<or> (nx \<le> c \<and> c < nx')"
    proof
      assume "children (h2 a) b = Some c"
      from edge2 [OF this] p2 show ?thesis by auto
    next
      assume "Suc nx \<le> c \<and> c < nx'"
      then show ?thesis by simp
    qed
  qed
  have 6: "\<forall>a. nx \<le> a \<and> a < nx' \<and> a \<noteq> n' \<longrightarrow> (\<exists>b. children (h' a) b \<noteq> None)"
  proof (intro allI impI)
    fix a assume a: "nx \<le> a \<and> a < nx' \<and> a \<noteq> n'"
    show "\<exists>b. children (h' a) b \<noteq> None"
    proof (cases "a = nx")
      case True
      with a p5 have "ks \<noteq> []" by auto
      then obtain k' ks' where "ks = k' # ks'" by (cases ks) auto
      with w have "children (h' nx) k' \<noteq> None" by (auto split: option.splits)
      with True show ?thesis by blast
    next
      case False
      with a have "Suc nx \<le> a \<and> a < nx' \<and> a \<noteq> n'" by simp
      with p10 show ?thesis by blast
    qed
  qed
  have 8: "\<forall>a. nx \<le> a \<and> a < nx' \<longrightarrow> pvalue (h' a) = None \<and> \<not> valid (h' a)"
  proof (intro allI impI)
    fix a assume a: "nx \<le> a \<and> a < nx'"
    show "pvalue (h' a) = None \<and> \<not> valid (h' a)"
    proof (cases "a = nx")
      case True
      have "pvalue (h' nx) = pvalue (h2 nx) \<and> valid (h' nx) = valid (h2 nx)" using p7 by simp
      with True new show ?thesis by (simp add: new_pnode_def)
    next
      case False
      with a have "Suc nx \<le> a \<and> a < nx'" by simp
      with p11 show ?thesis by blast
    qed
  qed
  show ?case unfolding append_post_def using 1 2 3 4 E F 6 8 by simp
qed

lemma insert_walk_char:
  "insert_walk h n ks i = (m, j) \<Longrightarrow>
     (j = - 1 \<and> find_walk h n ks = Some m) \<or>
     (\<exists>d. j = int (i + d) \<and> d < length ks \<and> find_walk h n (take d ks) = Some m
          \<and> children (h m) (ks ! d) = None)"
proof (induction ks arbitrary: n i)
  case Nil
  then show ?case by simp
next
  case (Cons k ks)
  show ?case
  proof (cases "children (h n) k")
    case None
    with Cons.prems have "m = n" "j = int i" by auto
    with None show ?thesis by (intro disjI2 exI [of _ 0]) simp
  next
    case (Some c)
    with Cons.prems have "insert_walk h c ks (Suc i) = (m, j)" by simp
    from Cons.IH [OF this] show ?thesis
    proof
      assume "j = - 1 \<and> find_walk h c ks = Some m"
      with Some show ?thesis by simp
    next
      assume "\<exists>d. j = int (Suc i + d) \<and> d < length ks \<and> find_walk h c (take d ks) = Some m
          \<and> children (h m) (ks ! d) = None"
      then obtain d where "j = int (Suc i + d)" "d < length ks" "find_walk h c (take d ks) = Some m"
          "children (h m) (ks ! d) = None" by blast
      with Some show ?thesis by (intro disjI2 exI [of _ "Suc d"]) simp
    qed
  qed
qed

lemma Insert_decomp:
  "\<exists>pre ks n0 h' nx' n'.
     ky = pre @ ks \<and> find_walk (heap t) (root t) pre = Some n0 \<and>
     (ks \<noteq> [] \<longrightarrow> children (heap t n0) (hd ks) = None) \<and>
     insert_append (heap t) (nxt t) n0 ks = (h', nx', n') \<and>
     Insert t ky v = t\<lparr>heap := h'(n' := (h' n')\<lparr>pvalue := v, valid := True\<rparr>), nxt := nx'\<rparr>"
proof -
  obtain n0 j where iw: "insert_walk (heap t) (root t) ky 0 = (n0, j)" by fastforce
  from insert_walk_char [OF iw] show ?thesis
  proof
    assume a: "j = - 1 \<and> find_walk (heap t) (root t) ky = Some n0"
    have "Insert t ky v = t\<lparr>heap := (heap t)(n0 := (heap t n0)\<lparr>pvalue := v, valid := True\<rparr>), nxt := nxt t\<rparr>"
      using iw a by (simp add: Insert_def)
    with a show ?thesis
      by (intro exI [of _ ky] exI [of _ "[]"] exI [of _ n0] exI [of _ "heap t"] exI [of _ "nxt t"]) simp
  next
    assume "\<exists>d. j = int (0 + d) \<and> d < length ky \<and> find_walk (heap t) (root t) (take d ky) = Some n0
          \<and> children (heap t n0) (ky ! d) = None"
    then obtain d where d: "j = int d" "d < length ky"
      "find_walk (heap t) (root t) (take d ky) = Some n0" "children (heap t n0) (ky ! d) = None"
      by auto
    obtain h' nx' n' where ia: "insert_append (heap t) (nxt t) n0 (drop d ky) = (h', nx', n')"
      by (metis prod_cases3)
    have "Insert t ky v = t\<lparr>heap := h'(n' := (h' n')\<lparr>pvalue := v, valid := True\<rparr>), nxt := nx'\<rparr>"
      using iw d(1) ia by (simp add: Insert_def)
    moreover have "hd (drop d ky) = ky ! d" using d(2) by (simp add: hd_drop_conv_nth)
    moreover have "ky = take d ky @ drop d ky" by simp
    ultimately show ?thesis using d ia
      by (intro exI [of _ "take d ky"] exI [of _ "drop d ky"] exI [of _ n0] exI [of _ h'] exI [of _ nx'] exI [of _ n'])
        simp
  qed
qed

lemma find_walk_snoc:
  "find_walk h n (u @ [b]) = (case find_walk h n u of None \<Rightarrow> None | Some m \<Rightarrow> children (h m) b)"
  by (simp add: find_walk_append split: option.splits)

lemma find_walk_inj:
  "heap_inv h nx \<Longrightarrow> find_walk h r w = Some a \<Longrightarrow> find_walk h r w' = Some a \<Longrightarrow> w = w'"
proof (induction w arbitrary: w' a rule: rev_induct)
  case Nil
  then have "a = r" by simp
  show ?case
  proof (cases "w' = []")
    case False
    with find_walk_bound [OF Nil.prems(1,3)] \<open>a = r\<close> show ?thesis by simp
  qed simp
next
  case (snoc b u)
  from snoc.prems(2) obtain m where m: "find_walk h r u = Some m" "children (h m) b = Some a"
    by (auto simp: find_walk_snoc split: option.splits)
  have ra: "r < a" using find_walk_bound [OF snoc.prems(1,2)] by simp
  show ?case
  proof (cases w' rule: rev_cases)
    case Nil
    with snoc.prems(3) ra show ?thesis by simp
  next
    case (snoc u' b')
    with snoc.prems(3) obtain m' where m': "find_walk h r u' = Some m'" "children (h m') b' = Some a"
      by (auto simp: find_walk_snoc split: option.splits)
    from snoc.prems(1) m(2) m'(2) have "m = m' \<and> b = b'" unfolding heap_inv_def by blast
    with snoc.IH [OF snoc.prems(1) m(1)] m'(1) snoc show ?thesis by simp
  qed
qed

lemma heap_inv_cong:
  "\<forall>a. children (h' a) = children (h a) \<Longrightarrow> heap_inv h' nx = heap_inv h nx"
  by (simp add: heap_inv_def)

lemma find_walk_old:
  assumes "heap_inv h' nx'"
    and "\<forall>a b c. children (h' a) b = Some c \<longrightarrow> children (h a) b = Some c \<or> nx \<le> c"
  shows "find_walk h' r w = Some a \<Longrightarrow> a < nx \<Longrightarrow> find_walk h r w = Some a"
proof (induction w arbitrary: r)
  case Nil
  then show ?case by simp
next
  case (Cons k ks)
  then obtain c where c: "children (h' r) k = Some c" and w: "find_walk h' c ks = Some a"
    by (auto split: option.splits)
  from find_walk_bound [OF assms(1) w] Cons.prems(2) have "c < nx" by simp
  with assms(2) c have "children (h r) k = Some c" by (metis not_less)
  with Cons.IH [OF w Cons.prems(2)] show ?case by simp
qed

text \<open>What one Insert does to a trie that satisfies the invariant.\<close>

lemma Insert_post:
  assumes inv: "trie_inv t"
  shows "trie_inv (Insert t ky v)"
    and "\<exists>n'. find_walk (heap (Insert t ky v)) (root (Insert t ky v)) ky = Some n'
            \<and> pvalue (heap (Insert t ky v) n') = v \<and> valid (heap (Insert t ky v) n')"
    and "\<And>w a. find_walk (heap t) (root t) w = Some a \<Longrightarrow>
            find_walk (heap (Insert t ky v)) (root (Insert t ky v)) w = Some a
            \<and> (w \<noteq> ky \<longrightarrow> pvalue (heap (Insert t ky v) a) = pvalue (heap t a)
                          \<and> valid (heap (Insert t ky v) a) = valid (heap t a))"
    and "\<And>w a. find_walk (heap (Insert t ky v)) (root (Insert t ky v)) w = Some a \<Longrightarrow>
            valid (heap (Insert t ky v) a) \<Longrightarrow>
            w = ky \<or> (find_walk (heap t) (root t) w = Some a \<and> valid (heap t a))"
    and "bookmarks (Insert t ky v) = bookmarks t" "root (Insert t ky v) = root t"
proof -
  from Insert_decomp [of ky t v] obtain pre ks n0 h' nx' n' where
    ky: "ky = pre @ ks" and pre: "find_walk (heap t) (root t) pre = Some n0"
    and hd: "ks \<noteq> [] \<longrightarrow> children (heap t n0) (hd ks) = None"
    and ia: "insert_append (heap t) (nxt t) n0 ks = (h', nx', n')"
    and ins: "Insert t ky v = t\<lparr>heap := h'(n' := (h' n')\<lparr>pvalue := v, valid := True\<rparr>), nxt := nx'\<rparr>"
    by blast
  define h where "h = heap t"
  define nx where "nx = nxt t"
  define h3 where "h3 = h'(n' := (h' n')\<lparr>pvalue := v, valid := True\<rparr>)"
  have hinv: "heap_inv h nx" and r0: "root t = 0" and nx0: "0 < nx" and pr: "pruned h"
    and bk: "\<forall>bm \<in> set (bookmarks t). bm_k bm \<le> 256"
    using inv by (simp_all add: trie_inv_def h_def nx_def)
  have n0: "n0 < nx" using find_walk_bound [OF hinv pre [folded h_def]] r0 nx0 by simp
  have post: "append_post h nx n0 ks h' nx' n'"
    using insert_append_post [OF hinv n0 hd [folded h_def] ia [folded h_def nx_def]] .
  have p1: "heap_inv h' nx'" and p2: "nx \<le> nx'" and p3: "n' < nx'"
    and p4: "ks \<noteq> [] \<longrightarrow> nx \<le> n'" and p5: "ks = [] \<longrightarrow> n' = n0 \<and> h' = h"
    and w: "find_walk h' n0 ks = Some n'"
    and p7: "\<forall>a. a < nx \<longrightarrow> pvalue (h' a) = pvalue (h a) \<and> valid (h' a) = valid (h a)"
    and p8: "\<forall>a b c. children (h a) b = Some c \<longrightarrow> children (h' a) b = Some c"
    and p9: "\<forall>a b c. children (h' a) b = Some c \<longrightarrow> children (h a) b = Some c \<or> (nx \<le> c \<and> c < nx')"
    and p10: "\<forall>a. nx \<le> a \<and> a < nx' \<and> a \<noteq> n' \<longrightarrow> (\<exists>b. children (h' a) b \<noteq> None)"
    and p11: "\<forall>a. nx \<le> a \<and> a < nx' \<longrightarrow> pvalue (h' a) = None \<and> \<not> valid (h' a)"
    using post unfolding append_post_def by simp_all
  have ch3: "\<forall>a. children (h3 a) = children (h' a)" by (simp add: h3_def)
  have v3: "\<And>a. a \<noteq> n' \<Longrightarrow> pvalue (h3 a) = pvalue (h' a) \<and> valid (h3 a) = valid (h' a)"
    by (simp add: h3_def)
  have n3: "pvalue (h3 n') = v" "valid (h3 n')" by (simp_all add: h3_def)
  have t': "heap (Insert t ky v) = h3" "nxt (Insert t ky v) = nx'" "root (Insert t ky v) = 0"
    "bookmarks (Insert t ky v) = bookmarks t"
    by (simp_all add: ins h3_def r0)
  have inv3: "heap_inv h3 nx'" using p1 heap_inv_cong [OF ch3] by simp
  have walk3: "\<And>r w. find_walk h3 r w = find_walk h' r w" by (rule find_walk_cong [OF ch3])
  have up: "\<And>r w a. find_walk h r w = Some a \<Longrightarrow> find_walk h' r w = Some a"
  proof -
    fix r w a assume "find_walk h r w = Some a"
    moreover have "\<forall>a b. children (h a) b = children (h' a) b \<or> children (h a) b = None"
      using p8 by (metis option.exhaust)
    ultimately show "find_walk h' r w = Some a" by (rule find_walk_subedges [rotated])
  qed
  have key3: "find_walk h3 0 ky = Some n'"
    using up [OF pre [folded h_def]] w by (simp add: walk3 ky find_walk_append r0)
  have pruned3: "pruned h3"
    unfolding pruned_def
  proof (intro allI impI)
    fix p b a assume "children (h3 p) b = Some a"
    then have e: "children (h' p) b = Some a" using ch3 by simp
    show "valid (h3 a) \<or> (\<exists>b'. children (h3 a) b' \<noteq> None)"
    proof (cases "a = n'")
      case True
      then show ?thesis using n3 by simp
    next
      case False
      from p9 e have "children (h p) b = Some a \<or> (nx \<le> a \<and> a < nx')" by blast
      then show ?thesis
      proof
        assume o: "children (h p) b = Some a"
        then have "a < nx" using hinv unfolding heap_inv_def by blast
        moreover from pr o have "valid (h a) \<or> (\<exists>b'. children (h a) b' \<noteq> None)"
          unfolding pruned_def by blast
        ultimately show ?thesis using p7 p8 v3 [OF False] ch3 by (metis option.exhaust)
      next
        assume "nx \<le> a \<and> a < nx'"
        with p10 False ch3 show ?thesis by simp
      qed
    qed
  qed
  show "trie_inv (Insert t ky v)"
    unfolding trie_inv_def t' using inv3 pruned3 bk p2 nx0 by simp
  show "\<exists>n'. find_walk (heap (Insert t ky v)) (root (Insert t ky v)) ky = Some n'
            \<and> pvalue (heap (Insert t ky v) n') = v \<and> valid (heap (Insert t ky v) n')"
    unfolding t' using key3 n3 by blast
  show "bookmarks (Insert t ky v) = bookmarks t" by (rule t')
  show "root (Insert t ky v) = root t" by (simp add: t' r0)
  {
    fix w a assume wa: "find_walk (heap t) (root t) w = Some a"
    then have wh: "find_walk h 0 w = Some a" by (simp add: h_def r0)
    have w3: "find_walk h3 0 w = Some a" using up [OF wh] by (simp add: walk3)
    have a: "a < nx" using find_walk_bound [OF hinv wh] nx0 by simp
    have "w \<noteq> ky \<longrightarrow> pvalue (h3 a) = pvalue (h a) \<and> valid (h3 a) = valid (h a)"
    proof
      assume "w \<noteq> ky"
      with find_walk_inj [OF inv3 w3] key3 have "a \<noteq> n'" by blast
      from v3 [OF this] p7 a show "pvalue (h3 a) = pvalue (h a) \<and> valid (h3 a) = valid (h a)"
        by simp
    qed
    with w3 show "find_walk (heap (Insert t ky v)) (root (Insert t ky v)) w = Some a
            \<and> (w \<noteq> ky \<longrightarrow> pvalue (heap (Insert t ky v) a) = pvalue (heap t a)
                          \<and> valid (heap (Insert t ky v) a) = valid (heap t a))"
      unfolding t' by (simp add: h_def)
  }
  {
    fix w a assume "find_walk (heap (Insert t ky v)) (root (Insert t ky v)) w = Some a"
      and "valid (heap (Insert t ky v) a)"
    then have w3: "find_walk h3 0 w = Some a" and va: "valid (h3 a)" by (simp_all add: t')
    show "w = ky \<or> (find_walk (heap t) (root t) w = Some a \<and> valid (heap t a))"
    proof (cases "a = n'")
      case True
      with find_walk_inj [OF inv3 w3] key3 show ?thesis by blast
    next
      case False
      have a': "a < nx'" using find_walk_bound [OF inv3 w3] p2 nx0 by simp
      have vh': "valid (h' a)" using v3 [OF False] va by simp
      with p11 a' have a: "a < nx" by (meson not_less)
      have "find_walk h' 0 w = Some a" using w3 by (simp add: walk3)
      moreover have "\<forall>a b c. children (h' a) b = Some c \<longrightarrow> children (h a) b = Some c \<or> nx \<le> c"
        using p9 by blast
      ultimately have "find_walk h 0 w = Some a" using find_walk_old [OF p1] a by blast
      moreover have "valid (h a)" using p7 a vh' by simp
      ultimately show ?thesis by (simp add: h_def r0)
    qed
  }
qed

section \<open>Properties of the backward loop of Delete\<close>

lemma delete_cleanup_Cons:
  "delete_cleanup h (bm # bms) prev =
     (if bms = [] then Inr (unlink_child h (bm_n bm) prev)
      else if valid (unlink_child h (bm_n bm) prev (bm_n bm)) then Inr (unlink_child h (bm_n bm) prev)
      else if has_children (unlink_child h (bm_n bm) prev (bm_n bm))
        then Inr (unlink_child h (bm_n bm) prev)
      else (case bm_prefix bm of
              [] \<Rightarrow> Inl IndexOutOfRange
            | p # _ \<Rightarrow> delete_cleanup (unlink_child h (bm_n bm) prev) bms (unat p)))"
  by (cases "bm_prefix bm") (simp_all add: unlink_child_def Let_def)

lemma delete_walk_pstack:
  "delete_walk h n ks bms = Some (m, bs) \<Longrightarrow> pstack_ok h bms \<Longrightarrow> bm_n (hd bms) = n \<Longrightarrow>
     pstack_ok h bs \<and> bm_n (hd bs) = m \<and> bs \<noteq> [] \<and> last bs = last bms"
proof (induction ks arbitrary: n bms)
  case Nil
  then show ?case by (cases bms) auto
next
  case (Cons k ks)
  then obtain c where c: "children (h n) k = Some c"
    and dw: "delete_walk h c ks (\<lparr>bm_n = c, bm_prefix = [k], bm_k = 0\<rparr> # bms) = Some (m, bs)"
    by (auto split: option.splits)
  from Cons.prems(2) obtain f0 rest where bms: "bms = f0 # rest" by (cases bms) auto
  have "pstack_ok h (\<lparr>bm_n = c, bm_prefix = [k], bm_k = 0\<rparr> # bms)"
    using Cons.prems(2,3) c by (simp add: bms)
  from Cons.IH [OF dw this] show ?case by (simp add: bms)
qed

lemma pstack_ok_upd:
  "heap_inv h nx \<Longrightarrow> pstack_ok h (g # S) \<Longrightarrow> bm_n g < a \<Longrightarrow> pstack_ok (h(a := nd)) (g # S)"
proof (induction S arbitrary: g)
  case Nil
  then show ?case by simp
next
  case (Cons g2 S)
  from Cons.prems(2) obtain b where b: "bm_prefix g = [b]" "children (h (bm_n g2)) b = Some (bm_n g)"
    and ok: "pstack_ok h (g2 # S)" by auto
  from Cons.prems(1) b(2) have lt: "bm_n g2 < bm_n g" unfolding heap_inv_def by blast
  with Cons.prems(3) have "bm_n g2 < a" by simp
  from Cons.IH [OF Cons.prems(1) ok this] b lt Cons.prems(3) show ?case by auto
qed

lemma heap_inv_subedges:
  "heap_inv h nx \<Longrightarrow> \<forall>a b. children (h' a) b = children (h a) b \<or> children (h' a) b = None \<Longrightarrow>
   heap_inv h' nx"
  unfolding heap_inv_def by (metis option.distinct(1))

text \<open>A node that is not terminal and keeps no child hides no terminal node.\<close>

lemma dead_walk:
  assumes sub: "\<forall>a b. children (h' a) b = children (h a) b \<or> children (h' a) b = None"
    and r6: "\<forall>a b c. children (h a) b = Some c \<and> children (h' a) b \<noteq> Some c \<longrightarrow>
               \<not> valid (h c) \<and> (\<forall>b'. children (h' c) b' = None)"
  shows "find_walk h c ks = Some x \<Longrightarrow> \<not> valid (h c) \<Longrightarrow> \<forall>b'. children (h' c) b' = None \<Longrightarrow>
         \<not> valid (h x)"
proof (induction ks arbitrary: c)
  case Nil
  then show ?case by simp
next
  case (Cons k ks)
  then obtain c2 where c2: "children (h c) k = Some c2" and w: "find_walk h c2 ks = Some x"
    by (auto split: option.splits)
  from Cons.prems(3) have "children (h' c) k \<noteq> Some c2" by simp
  with r6 c2 have "\<not> valid (h c2) \<and> (\<forall>b'. children (h' c2) b' = None)" by blast
  with Cons.IH [OF w] show ?case by blast
qed

lemma valid_walk_survives:
  assumes sub: "\<forall>a b. children (h' a) b = children (h a) b \<or> children (h' a) b = None"
    and r6: "\<forall>a b c. children (h a) b = Some c \<and> children (h' a) b \<noteq> Some c \<longrightarrow>
               \<not> valid (h c) \<and> (\<forall>b'. children (h' c) b' = None)"
  shows "find_walk h r w = Some x \<Longrightarrow> valid (h x) \<Longrightarrow> find_walk h' r w = Some x"
proof (induction w arbitrary: r)
  case Nil
  then show ?case by simp
next
  case (Cons k ks)
  then obtain c where c: "children (h r) k = Some c" and w: "find_walk h c ks = Some x"
    by (auto split: option.splits)
  show ?case
  proof (cases "children (h' r) k = Some c")
    case True
    with Cons.IH [OF w Cons.prems(2)] show ?thesis by simp
  next
    case False
    with r6 c have "\<not> valid (h c) \<and> (\<forall>b'. children (h' c) b' = None)" by blast
    with dead_walk [OF sub r6 w] Cons.prems(2) show ?thesis by blast
  qed
qed

lemma delete_cleanup_post:
  assumes "heap_inv h nx"
    and "pstack_ok h (f # S)" and "bm_n (last (f # S)) = 0"
    and "prev = 256 \<or> (prev < 256 \<and> (\<exists>c. children (h (bm_n f)) (of_nat prev) = Some c
            \<and> \<not> valid (h c) \<and> (\<forall>b'. children (h c) b' = None)))"
    and "\<forall>p b a. children (h p) b = Some a \<and> \<not> (prev = 256 \<and> a = bm_n f)
            \<and> \<not> (prev \<noteq> 256 \<and> p = bm_n f \<and> b = of_nat prev)
          \<longrightarrow> valid (h a) \<or> (\<exists>b'. children (h a) b' \<noteq> None)"
    and "delete_cleanup h (f # S) prev = Inr h'"
  shows "pruned h' \<and>
     (\<forall>a b c. children (h a) b = Some c \<and> children (h' a) b \<noteq> Some c
        \<longrightarrow> \<not> valid (h c) \<and> (\<forall>b'. children (h' c) b' = None))"
  using assms
proof (induction S arbitrary: f h prev)
  case ind: (Nil f h prev)
  define h1 where "h1 = unlink_child h (bm_n f) prev"
  have h': "h' = h1" using ind.prems(6) unfolding delete_cleanup_Cons h1_def by simp
  have sub1: "\<forall>a b. children (h1 a) b = children (h a) b \<or> children (h1 a) b = None"
    by (simp add: h1_def unlink_child_def)
  have inv1: "heap_inv h1 nx" by (rule heap_inv_subedges [OF ind.prems(1) sub1])
  have val1: "\<forall>a. valid (h1 a) = valid (h a)" by (simp add: h1_def unlink_child_def)
  have ch1: "\<forall>a. a \<noteq> bm_n f \<longrightarrow> children (h1 a) = children (h a)"
    by (simp add: h1_def unlink_child_def)
  have f0: "bm_n f = 0" using ind.prems(3) by simp
  have pr: "pruned h1"
    unfolding pruned_def
  proof (intro allI impI)
    fix p b a assume e: "children (h1 p) b = Some a"
    with inv1 have "p < a" unfolding heap_inv_def by blast
    then have na: "a \<noteq> bm_n f" using f0 by simp
    from e sub1 have eh: "children (h p) b = Some a" by (metis option.distinct(1))
    have "\<not> (prev \<noteq> 256 \<and> p = bm_n f \<and> b = of_nat prev)" using e by (auto simp: h1_def unlink_child_def)
    with ind.prems(5) eh na have "valid (h a) \<or> (\<exists>b'. children (h a) b' \<noteq> None)" by blast
    then show "valid (h1 a) \<or> (\<exists>b'. children (h1 a) b' \<noteq> None)" using val1 ch1 na by simp
  qed
  have r6: "\<forall>a b c. children (h a) b = Some c \<and> children (h1 a) b \<noteq> Some c
        \<longrightarrow> \<not> valid (h c) \<and> (\<forall>b'. children (h1 c) b' = None)"
  proof (intro allI impI)
    fix a b c assume a: "children (h a) b = Some c \<and> children (h1 a) b \<noteq> Some c"
    then have "prev \<noteq> 256 \<and> a = bm_n f \<and> b = of_nat prev" by (auto simp: h1_def unlink_child_def split: if_splits)
    with ind.prems(4) a have "\<not> valid (h c) \<and> (\<forall>b'. children (h c) b' = None)" by auto
    with sub1 show "\<not> valid (h c) \<and> (\<forall>b'. children (h1 c) b' = None)" by metis
  qed
  show ?case using pr r6 h' by simp
next
  case ind: (Cons g S f h prev)
  define h1 where "h1 = unlink_child h (bm_n f) prev"
  have sub1: "\<forall>a b. children (h1 a) b = children (h a) b \<or> children (h1 a) b = None"
    by (simp add: h1_def unlink_child_def)
  have inv1: "heap_inv h1 nx" by (rule heap_inv_subedges [OF ind.prems(1) sub1])
  have val1: "\<forall>a. valid (h1 a) = valid (h a)" by (simp add: h1_def unlink_child_def)
  have ch1: "\<forall>a. a \<noteq> bm_n f \<longrightarrow> children (h1 a) = children (h a)"
    by (simp add: h1_def unlink_child_def)
  have ex1: "\<forall>p b a. children (h1 p) b = Some a \<and> a \<noteq> bm_n f
      \<longrightarrow> valid (h1 a) \<or> (\<exists>b'. children (h1 a) b' \<noteq> None)"
  proof (intro allI impI)
    fix p b a assume e: "children (h1 p) b = Some a \<and> a \<noteq> bm_n f"
    with sub1 have eh: "children (h p) b = Some a" by (metis option.distinct(1))
    have "\<not> (prev \<noteq> 256 \<and> p = bm_n f \<and> b = of_nat prev)" using e by (auto simp: h1_def unlink_child_def)
    with ind.prems(5) eh e have "valid (h a) \<or> (\<exists>b'. children (h a) b' \<noteq> None)" by blast
    then show "valid (h1 a) \<or> (\<exists>b'. children (h1 a) b' \<noteq> None)" using val1 ch1 e by simp
  qed
  have r61: "\<forall>a b c. children (h a) b = Some c \<and> children (h1 a) b \<noteq> Some c
        \<longrightarrow> \<not> valid (h c) \<and> (\<forall>b'. children (h1 c) b' = None)"
  proof (intro allI impI)
    fix a b c assume a: "children (h a) b = Some c \<and> children (h1 a) b \<noteq> Some c"
    then have "prev \<noteq> 256 \<and> a = bm_n f \<and> b = of_nat prev" by (auto simp: h1_def unlink_child_def split: if_splits)
    with ind.prems(4) a have "\<not> valid (h c) \<and> (\<forall>b'. children (h c) b' = None)" by auto
    with sub1 show "\<not> valid (h c) \<and> (\<forall>b'. children (h1 c) b' = None)" by metis
  qed
  from ind.prems(2) obtain b where b: "bm_prefix f = [b]" "children (h (bm_n g)) b = Some (bm_n f)"
    and ok: "pstack_ok h (g # S)" by auto
  from ind.prems(1) b(2) have lt: "bm_n g < bm_n f" unfolding heap_inv_def by blast
  show ?case
  proof (cases "valid (h1 (bm_n f)) \<or> has_children (h1 (bm_n f))")
    case True
    then have h': "h' = h1" using ind.prems(6) unfolding delete_cleanup_Cons h1_def
      by (simp split: if_splits)
    have "pruned h1"
      unfolding pruned_def
    proof (intro allI impI)
      fix p b a assume e: "children (h1 p) b = Some a"
      show "valid (h1 a) \<or> (\<exists>b'. children (h1 a) b' \<noteq> None)"
      proof (cases "a = bm_n f")
        case True
        with \<open>valid (h1 (bm_n f)) \<or> has_children (h1 (bm_n f))\<close> show ?thesis
          by (simp add: has_children_iff)
      next
        case False
        with ex1 e show ?thesis by blast
      qed
    qed
    with r61 h' show ?thesis by simp
  next
    case False
    then have dc: "delete_cleanup h1 (g # S) (unat b) = Inr h'"
      using ind.prems(6) b(1) unfolding delete_cleanup_Cons h1_def by simp
    have dead: "\<not> valid (h1 (bm_n f))" "\<forall>b'. children (h1 (bm_n f)) b' = None"
      using False by (simp_all add: has_children_iff)
    have ok1: "pstack_ok h1 (g # S)"
      unfolding h1_def unlink_child_def using pstack_ok_upd [OF ind.prems(1) ok lt] ok by simp
    have last1: "bm_n (last (g # S)) = 0" using ind.prems(3) by simp
    have edge1: "children (h1 (bm_n g)) b = Some (bm_n f)" using ch1 lt b(2) by simp
    have ub: "unat b < 256" using unsigned_less [of b] by simp
    have prev1: "unat b = 256 \<or> (unat b < 256 \<and> (\<exists>c. children (h1 (bm_n g)) (of_nat (unat b)) = Some c
            \<and> \<not> valid (h1 c) \<and> (\<forall>b'. children (h1 c) b' = None)))"
      using ub edge1 dead by simp
    have ex2: "\<forall>p b2 a. children (h1 p) b2 = Some a \<and> \<not> (unat b = 256 \<and> a = bm_n g)
            \<and> \<not> (unat b \<noteq> 256 \<and> p = bm_n g \<and> b2 = of_nat (unat b))
          \<longrightarrow> valid (h1 a) \<or> (\<exists>b'. children (h1 a) b' \<noteq> None)"
    proof (intro allI impI)
      fix p b2 a
      assume a: "children (h1 p) b2 = Some a \<and> \<not> (unat b = 256 \<and> a = bm_n g)
            \<and> \<not> (unat b \<noteq> 256 \<and> p = bm_n g \<and> b2 = of_nat (unat b))"
      then have "\<not> (p = bm_n g \<and> b2 = b)" using ub by simp
      with inv1 edge1 a have "a \<noteq> bm_n f" unfolding heap_inv_def by blast
      with ex1 a show "valid (h1 a) \<or> (\<exists>b'. children (h1 a) b' \<noteq> None)" by blast
    qed
    from ind.IH [OF inv1 ok1 last1 prev1 ex2 dc]
    have pr: "pruned h'" and r62: "\<forall>a b c. children (h1 a) b = Some c \<and> children (h' a) b \<noteq> Some c
        \<longrightarrow> \<not> valid (h1 c) \<and> (\<forall>b'. children (h' c) b' = None)" by blast+
    have sub2: "\<forall>a b. children (h' a) b = children (h1 a) b \<or> children (h' a) b = None"
      using delete_cleanup_frame [OF dc] by (rule conjunct2)
    have "\<forall>a b c. children (h a) b = Some c \<and> children (h' a) b \<noteq> Some c
        \<longrightarrow> \<not> valid (h c) \<and> (\<forall>b'. children (h' c) b' = None)"
    proof (intro allI impI)
      fix a b c assume a: "children (h a) b = Some c \<and> children (h' a) b \<noteq> Some c"
      show "\<not> valid (h c) \<and> (\<forall>b'. children (h' c) b' = None)"
      proof (cases "children (h1 a) b = Some c")
        case True
        with r62 a have "\<not> valid (h1 c) \<and> (\<forall>b'. children (h' c) b' = None)" by blast
        with val1 show ?thesis by simp
      next
        case False
        with r61 a have "\<not> valid (h c) \<and> (\<forall>b'. children (h1 c) b' = None)" by blast
        with sub2 show ?thesis by metis
      qed
    qed
    with pr show ?thesis by simp
  qed
qed

lemma pstack_ok_cong:
  "\<forall>a. children (h' a) = children (h a) \<Longrightarrow> pstack_ok h' S = pstack_ok h S"
  by (induction h S rule: pstack_ok.induct) simp_all

lemma Delete_true_decomp:
  assumes "Delete t ky = Inr (True, t')"
  shows "\<exists>n bms h2. delete_walk (heap t) (root t) ky [\<lparr>bm_n = root t, bm_prefix = [], bm_k = 0\<rparr>] = Some (n, bms)
      \<and> valid (heap t n)
      \<and> delete_cleanup ((heap t)(n := (heap t n)\<lparr>valid := False\<rparr>)) bms 256 = Inr h2
      \<and> t' = t\<lparr>heap := h2\<rparr>"
proof (cases "delete_walk (heap t) (root t) ky [\<lparr>bm_n = root t, bm_prefix = [], bm_k = 0\<rparr>]")
  case None
  with assms show ?thesis by (simp add: Delete_def)
next
  case (Some r)
  obtain n bms where r: "r = (n, bms)" by (cases r)
  show ?thesis
  proof (cases "valid (heap t n)")
    case False
    with Some r assms show ?thesis by (simp add: Delete_def Let_def)
  next
    case True
    with Some r assms show ?thesis
      by (auto simp: Delete_def Let_def split: sum.splits)
  qed
qed

text \<open>What one Delete does to a trie that satisfies the invariant.\<close>

lemma Delete_post:
  assumes inv: "trie_inv t" and d: "Delete t ky = Inr (b, t')"
  shows "trie_inv t'"
    and "\<And>w x. find_walk (heap t) (root t) w = Some x \<Longrightarrow> valid (heap t x) \<Longrightarrow> w \<noteq> ky \<Longrightarrow>
           find_walk (heap t') (root t') w = Some x \<and> pvalue (heap t' x) = pvalue (heap t x)
           \<and> valid (heap t' x)"
    and "\<And>w x. find_walk (heap t') (root t') w = Some x \<Longrightarrow> valid (heap t' x) \<Longrightarrow>
           w \<noteq> ky \<and> find_walk (heap t) (root t) w = Some x \<and> valid (heap t x)"
    and "bookmarks t' = bookmarks t" "root t' = root t" "nxt t' = nxt t"
proof -
  have all: "trie_inv t' \<and>
    (\<forall>w x. find_walk (heap t) (root t) w = Some x \<and> valid (heap t x) \<and> w \<noteq> ky \<longrightarrow>
           find_walk (heap t') (root t') w = Some x \<and> pvalue (heap t' x) = pvalue (heap t x)
           \<and> valid (heap t' x)) \<and>
    (\<forall>w x. find_walk (heap t') (root t') w = Some x \<and> valid (heap t' x) \<longrightarrow>
           w \<noteq> ky \<and> find_walk (heap t) (root t) w = Some x \<and> valid (heap t x)) \<and>
    bookmarks t' = bookmarks t \<and> root t' = root t \<and> nxt t' = nxt t"
  proof (cases b)
    case False
    with Delete_found_iff [OF d] have nf: "\<not> snd (Find t ky)" by simp
    from Delete_absent [OF nf] d have t': "t' = t" by simp
    have "\<And>x. find_walk (heap t) (root t) ky = Some x \<Longrightarrow> \<not> valid (heap t x)"
      using nf by (simp add: Find_def)
    then show ?thesis using inv t' by auto
  next
    case True
    from d True have d': "Delete t ky = Inr (True, t')" by simp
    from Delete_true_decomp [OF d'] obtain n bms h2 where
      dw: "delete_walk (heap t) (root t) ky [\<lparr>bm_n = root t, bm_prefix = [], bm_k = 0\<rparr>] = Some (n, bms)"
      and vn: "valid (heap t n)"
      and dc: "delete_cleanup ((heap t)(n := (heap t n)\<lparr>valid := False\<rparr>)) bms 256 = Inr h2"
      and t': "t' = t\<lparr>heap := h2\<rparr>" by blast
    define h where "h = heap t"
    define nx where "nx = nxt t"
    define h1 where "h1 = h(n := (h n)\<lparr>valid := False\<rparr>)"
    have hinv: "heap_inv h nx" and r0: "root t = 0" and nx0: "0 < nx" and pr: "pruned h"
      and bk: "\<forall>bm \<in> set (bookmarks t). bm_k bm \<le> 256"
      using inv by (simp_all add: trie_inv_def h_def nx_def)
    have fw: "find_walk h 0 ky = Some n" using delete_walk_Some [OF dw] by (simp add: h_def r0)
    have st: "pstack_ok h bms \<and> bm_n (hd bms) = n \<and> bms \<noteq> [] \<and>
        last bms = last [\<lparr>bm_n = root t, bm_prefix = [], bm_k = 0\<rparr>]"
      using delete_walk_pstack [OF dw] by (simp add: h_def)
    then obtain f S where bms: "bms = f # S" by (cases bms) auto
    have fn: "bm_n f = n" using st bms by simp
    have lastf: "bm_n (last (f # S)) = 0" using st bms r0 by simp
    have ch1: "\<forall>a. children (h1 a) = children (h a)" by (simp add: h1_def)
    have inv1: "heap_inv h1 nx" using hinv heap_inv_cong [OF ch1] by simp
    have ok1: "pstack_ok h1 (f # S)" using st bms pstack_ok_cong [OF ch1] by simp
    have v1: "\<forall>a. a \<noteq> n \<longrightarrow> valid (h1 a) = valid (h a)" "\<not> valid (h1 n)"
      "\<forall>a. pvalue (h1 a) = pvalue (h a)" by (simp_all add: h1_def)
    have ex1: "\<forall>p b a. children (h1 p) b = Some a \<and> \<not> ((256::nat) = 256 \<and> a = bm_n f)
            \<and> \<not> ((256::nat) \<noteq> 256 \<and> p = bm_n f \<and> b = of_nat 256)
          \<longrightarrow> valid (h1 a) \<or> (\<exists>b'. children (h1 a) b' \<noteq> None)"
    proof (intro allI impI)
      fix p b a
      assume a: "children (h1 p) b = Some a \<and> \<not> ((256::nat) = 256 \<and> a = bm_n f)
            \<and> \<not> ((256::nat) \<noteq> 256 \<and> p = bm_n f \<and> b = of_nat 256)"
      then have "children (h p) b = Some a" "a \<noteq> n" using ch1 fn by simp_all
      with pr have "valid (h a) \<or> (\<exists>b'. children (h a) b' \<noteq> None)"
        unfolding pruned_def by blast
      with \<open>a \<noteq> n\<close> v1 ch1 show "valid (h1 a) \<or> (\<exists>b'. children (h1 a) b' \<noteq> None)" by simp
    qed
    have dc1: "delete_cleanup h1 (f # S) 256 = Inr h2" using dc by (simp add: h1_def h_def bms)
    from delete_cleanup_post [OF inv1 ok1 lastf _ ex1 dc1]
    have pr2: "pruned h2"
      and r6: "\<forall>a b c. children (h1 a) b = Some c \<and> children (h2 a) b \<noteq> Some c
        \<longrightarrow> \<not> valid (h1 c) \<and> (\<forall>b'. children (h2 c) b' = None)" by simp_all
    have fr: "\<forall>a. valid (h2 a) = valid (h1 a) \<and> pvalue (h2 a) = pvalue (h1 a)"
      and sub: "\<forall>a b. children (h2 a) b = children (h1 a) b \<or> children (h2 a) b = None"
      using delete_cleanup_frame [OF dc1] by simp_all
    have inv2: "heap_inv h2 nx" by (rule heap_inv_subedges [OF inv1 sub])
    have walk1: "\<And>r w. find_walk h1 r w = find_walk h r w" by (rule find_walk_cong [OF ch1])
    have A: "trie_inv t'" unfolding trie_inv_def t' using inv2 r0 nx0 pr2 bk by (simp add: nx_def)
    have B: "\<forall>w x. find_walk (heap t) (root t) w = Some x \<and> valid (heap t x) \<and> w \<noteq> ky \<longrightarrow>
           find_walk (heap t') (root t') w = Some x \<and> pvalue (heap t' x) = pvalue (heap t x)
           \<and> valid (heap t' x)"
    proof (intro allI impI)
      fix w x assume a: "find_walk (heap t) (root t) w = Some x \<and> valid (heap t x) \<and> w \<noteq> ky"
      then have wx: "find_walk h 0 w = Some x" and vx: "valid (h x)" by (simp_all add: h_def r0)
      from find_walk_inj [OF hinv wx] fw a have xn: "x \<noteq> n" by blast
      have "find_walk h1 0 w = Some x" "valid (h1 x)" using wx vx xn v1 by (simp_all add: walk1)
      from valid_walk_survives [OF sub r6 this] have "find_walk h2 0 w = Some x" .
      then show "find_walk (heap t') (root t') w = Some x \<and> pvalue (heap t' x) = pvalue (heap t x)
           \<and> valid (heap t' x)"
        using fr v1 xn vx by (simp add: t' r0 h_def)
    qed
    have C: "\<forall>w x. find_walk (heap t') (root t') w = Some x \<and> valid (heap t' x) \<longrightarrow>
           w \<noteq> ky \<and> find_walk (heap t) (root t) w = Some x \<and> valid (heap t x)"
    proof (intro allI impI)
      fix w x assume a: "find_walk (heap t') (root t') w = Some x \<and> valid (heap t' x)"
      then have w2: "find_walk h2 0 w = Some x" and v2: "valid (h2 x)" by (simp_all add: t' r0)
      from find_walk_subedges [OF sub w2] have wx: "find_walk h 0 w = Some x" by (simp add: walk1)
      from v2 fr have "valid (h1 x)" by simp
      with v1 have xn: "x \<noteq> n" and vx: "valid (h x)" by auto
      from wx fw xn have "w \<noteq> ky" by auto
      with wx vx show "w \<noteq> ky \<and> find_walk (heap t) (root t) w = Some x \<and> valid (heap t x)"
        by (simp add: h_def r0)
    qed
    have D: "bookmarks t' = bookmarks t \<and> root t' = root t \<and> nxt t' = nxt t" by (simp add: t')
    show ?thesis by (rule conjI [OF A conjI [OF B conjI [OF C D]]])
  qed
  note a1 = all [THEN conjunct1]
  note a2 = all [THEN conjunct2, THEN conjunct1]
  note a3 = all [THEN conjunct2, THEN conjunct2, THEN conjunct1]
  note a4 = all [THEN conjunct2, THEN conjunct2, THEN conjunct2, THEN conjunct1]
  note a5 = all [THEN conjunct2, THEN conjunct2, THEN conjunct2, THEN conjunct2, THEN conjunct1]
  note a6 = all [THEN conjunct2, THEN conjunct2, THEN conjunct2, THEN conjunct2, THEN conjunct2]
  show "trie_inv t'" by (rule a1)
  show "bookmarks t' = bookmarks t" by (rule a4)
  show "root t' = root t" by (rule a5)
  show "nxt t' = nxt t" by (rule a6)
  show "\<And>w x. find_walk (heap t) (root t) w = Some x \<Longrightarrow> valid (heap t x) \<Longrightarrow> w \<noteq> ky \<Longrightarrow>
           find_walk (heap t') (root t') w = Some x \<and> pvalue (heap t' x) = pvalue (heap t x)
           \<and> valid (heap t' x)" using a2 [rule_format] by blast
  show "\<And>w x. find_walk (heap t') (root t') w = Some x \<Longrightarrow> valid (heap t' x) \<Longrightarrow>
           w \<noteq> ky \<and> find_walk (heap t) (root t) w = Some x \<and> valid (heap t x)"
    using a3 [rule_format] by blast
qed

section \<open>The claims about Find and Delete\<close>

text \<open>
  C4: Delete returns without a panic, its result is true exactly when the key was stored
  (Find reports it as found), and after a Delete that returned true Find no longer finds
  the key. Delete of the empty key on a new trie returns false.
\<close>

theorem Delete_returns_whether_stored:
  "(\<exists>b t'. Delete t ky = Inr (b, t') \<and> b = snd (Find t ky) \<and> (b \<longrightarrow> \<not> snd (Find t' ky)))
   \<and> Delete (NewPrefixTrie :: 'v PrefixTrie) [] = Inr (False, NewPrefixTrie)"
proof
  obtain b t' where d: "Delete t ky = Inr (b, t')" using Delete_no_panic by blast
  from Delete_found_iff [OF d] d
  show "\<exists>b t'. Delete t ky = Inr (b, t') \<and> b = snd (Find t ky) \<and> (b \<longrightarrow> \<not> snd (Find t' ky))"
    by blast
next
  show "Delete (NewPrefixTrie :: 'v PrefixTrie) [] = Inr (False, NewPrefixTrie)"
    by (rule Delete_absent) (simp add: Find_def NewPrefixTrie_def new_pnode_def)
qed

theorem Delete_returns_whether_stored_witness:
  "\<exists>t'. Delete (Insert NewPrefixTrie [97] (Some (1::nat))) [97] = Inr (True, t')
        \<and> \<not> snd (Find t' [97])"
proof -
  have s: "snd (Find (Insert NewPrefixTrie [97] (Some (1::nat))) [97])"
    by (simp add: eval_defs)
  from Delete_returns_whether_stored [of "Insert NewPrefixTrie [97] (Some (1::nat))" "[97]"] s
  show ?thesis by auto
qed

text \<open>
  C5: Delete of a key that is not stored returns false and leaves the whole trie (store,
  root and cursor) exactly as it was, whether the walk stops at a missing child or ends
  at a node whose flag is already false; repeating the call therefore gives the same.
\<close>

theorem Delete_absent_key_changes_nothing:
  "\<not> snd (Find t ky) \<Longrightarrow> Delete t ky = Inr (False, t)"
  by (rule Delete_absent)

theorem Delete_absent_key_changes_nothing_witness:
  "\<not> snd (Find (Insert NewPrefixTrie [97, 98] (Some (1::nat))) [97])
   \<and> Delete (Insert NewPrefixTrie [97, 98] (Some (1::nat))) [97]
       = Inr (False, Insert NewPrefixTrie [97, 98] (Some 1))"
proof -
  have h: "\<not> snd (Find (Insert NewPrefixTrie [97, 98] (Some (1::nat))) [97])"
    by (simp add: eval_defs)
  from h Delete_absent_key_changes_nothing [OF h] show ?thesis by blast
qed

text \<open>
  C10: when the walk of Find stops at a missing child the value returned is nil; when it
  ends at a node whose flag is false, Find returns that node's payload with found = false.
  Delete never writes a payload, so the value can be one stored for a key deleted before:
  after Insert a 1, Insert ab 2, Delete a, the call Find a returns (1, false).
\<close>

theorem Find_returns_stale_payload:
  "(find_walk (heap t) (root t) ky = None \<longrightarrow> Find t ky = (None, False))
   \<and> (\<forall>n. find_walk (heap t) (root t) ky = Some n \<and> \<not> valid (heap t n)
          \<longrightarrow> Find t ky = (pvalue (heap t n), False))
   \<and> (\<forall>b t' a. Delete t ky = Inr (b, t') \<longrightarrow> pvalue (heap t' a) = pvalue (heap t a))
   \<and> (\<exists>t1. Delete (Insert (Insert NewPrefixTrie [97] (Some (1::nat))) [97, 98] (Some 2)) [97]
               = Inr (True, t1)
            \<and> Find t1 [97] = (Some 1, False))"
proof (intro conjI)
  show "find_walk (heap t) (root t) ky = None \<longrightarrow> Find t ky = (None, False)"
    by (simp add: Find_def)
  show "\<forall>n. find_walk (heap t) (root t) ky = Some n \<and> \<not> valid (heap t n)
          \<longrightarrow> Find t ky = (pvalue (heap t n), False)"
    by (simp add: Find_def)
  show "\<forall>b t' a. Delete t ky = Inr (b, t') \<longrightarrow> pvalue (heap t' a) = pvalue (heap t a)"
    using Delete_keeps_pvalue by blast
  show "\<exists>t1. Delete (Insert (Insert NewPrefixTrie [97] (Some (1::nat))) [97, 98] (Some 2)) [97]
               = Inr (True, t1)
            \<and> Find t1 [97] = (Some 1, False)"
    by (simp add: eval_defs)
qed

theorem Find_returns_stale_payload_witness:
  "Find (Insert NewPrefixTrie [97] (Some (1::nat))) [98] = (None, False)
   \<and> Find (Insert NewPrefixTrie [97, 98] (Some (1::nat))) [97] = (None, False)
   \<and> (\<exists>t'. Delete (Insert NewPrefixTrie [97] (Some (1::nat))) [97] = Inr (True, t')
           \<and> pvalue (heap t' 1) = Some 1)"
proof -
  let ?t = "Insert NewPrefixTrie [97] (Some (1::nat))"
  let ?u = "Insert NewPrefixTrie [97, 98] (Some (1::nat))"
  have a: "find_walk (heap ?t) (root ?t) [98] = None" by (simp add: eval_defs)
  have b: "find_walk (heap ?u) (root ?u) [97] = Some 1 \<and> \<not> valid (heap ?u 1)"
    by (simp add: eval_defs)
  have c: "pvalue (heap ?u 1) = None" by (simp add: eval_defs)
  obtain t' where d: "Delete ?t [97] = Inr (True, t')"
    by (simp add: eval_defs)
  have e: "pvalue (heap ?t 1) = Some 1" by (simp add: eval_defs)
  from Find_returns_stale_payload [of ?t "[98]"] a
  have 1: "Find ?t [98] = (None, False)" by blast
  from Find_returns_stale_payload [of ?u "[97]"] b c
  have 2: "Find ?u [97] = (None, False)" by metis
  from Find_returns_stale_payload [of ?t "[97]"] d e
  have 3: "pvalue (heap t' 1) = Some 1" by metis
  from 1 2 3 d show ?thesis by blast
qed

end
